theory Spec2Isabelle
  imports Main "HOL-Library.Word"
begin

section \<open>Strings of the source\<close>

text \<open>
  A Python \<open>str\<close> is a sequence of Unicode code points and \<open>len\<close> counts code points,
  so a string is a list of code points (natural numbers). \<open>str\<close> turns an ASCII literal
  into such a list.
\<close>

type_synonym codepoint = nat
type_synonym pystr = "codepoint list"

definition str :: "string \<Rightarrow> pystr" where
  "str s = map of_char s"

text \<open>
  The three characters of the class \<open>[.!?]\<close> of the regular expression, which are also
  the characters of the string \<open>'.!?'\<close> tested at line 330.
\<close>

definition is_terminator :: "codepoint \<Rightarrow> bool" where
  "is_terminator c \<longleftrightarrow> c = 46 \<or> c = 33 \<or> c = 63"

text \<open>
  The whitespace of \<open>str.strip()\<close> and of \<open>\s\<close> in a \<open>str\<close> pattern: both ask
  CPython's \<open>Py_UNICODE_ISSPACE\<close>. The class \<open>[\s\n]\<close> adds nothing, a newline being
  whitespace already.
\<close>

definition isspace :: "codepoint \<Rightarrow> bool" where
  "isspace c \<longleftrightarrow>
     (9 \<le> c \<and> c \<le> 13) \<or> (28 \<le> c \<and> c \<le> 32) \<or> c = 133 \<or> c = 160 \<or> c = 5760 \<or>
     (8192 \<le> c \<and> c \<le> 8202) \<or> c = 8232 \<or> c = 8233 \<or> c = 8239 \<or> c = 8287 \<or> c = 12288"

definition strip :: "pystr \<Rightarrow> pystr" where
  "strip s = rev (dropWhile isspace (rev (dropWhile isspace s)))"

section \<open>The chunk splitter (lines 323 to 341 of xtts\_integration.py)\<close>

text \<open>
  \<open>re.split(r'([.!?]+[\s\n]*)', text)\<close>: the pattern has one capturing group around
  the whole of it, so the result alternates the text between two matches and the matched
  separator, and ends with the text after the last match. A match starts at the first
  terminator at or after the end of the previous match and takes, greedily, every
  terminator that follows and then every whitespace character that follows; it is never
  empty.
\<close>

function re_split :: "pystr \<Rightarrow> pystr list" where
  "re_split s =
     (case dropWhile (\<lambda>c. \<not> is_terminator c) s of
        [] \<Rightarrow> [s]
      | r # rs \<Rightarrow>
          takeWhile (\<lambda>c. \<not> is_terminator c) s #
          (takeWhile is_terminator (r # rs) @ takeWhile isspace (dropWhile is_terminator (r # rs))) #
          re_split (dropWhile isspace (dropWhile is_terminator (r # rs))))"
  by pat_completeness auto
termination
proof (relation "measure length")
  show "wf (measure length)" by simp
next
  fix s :: pystr and r rs
  assume a: "dropWhile (\<lambda>c. \<not> is_terminator c) s = r # rs"
  have "is_terminator r"
    using a hd_dropWhile [of "\<lambda>c. \<not> is_terminator c" s] by auto
  then have "length (dropWhile is_terminator (r # rs)) \<le> length rs"
    by (simp add: length_dropWhile_le)
  moreover have "length (dropWhile isspace (dropWhile is_terminator (r # rs)))
      \<le> length (dropWhile is_terminator (r # rs))"
    by (rule length_dropWhile_le)
  moreover have "length (r # rs) \<le> length s"
    using a length_dropWhile_le [of "\<lambda>c. \<not> is_terminator c" s] by simp
  ultimately show "(dropWhile isspace (dropWhile is_terminator (r # rs)), s) \<in> measure length"
    by simp
qed

declare re_split.simps [simp del]

text \<open>
  The loop of lines 327 to 333 over the parts, on the two local variables
  \<open>text_chunks\<close> and \<open>current_chunk\<close>. \<open>chunk_size\<close> is a Python integer.
\<close>

fun chunk_loop :: "int \<Rightarrow> pystr list \<Rightarrow> pystr list \<times> pystr \<Rightarrow> pystr list \<times> pystr" where
  "chunk_loop chunk_size [] (text_chunks, current_chunk) = (text_chunks, current_chunk)"
| "chunk_loop chunk_size (part # parts) (text_chunks, current_chunk) =
     (let current_chunk = current_chunk @ part in
      if (strip part \<noteq> [] \<and> (\<exists>p \<in> set (str ''.!?''). p \<in> set part))
         \<or> chunk_size \<le> int (length current_chunk)
      then
        (if strip current_chunk \<noteq> []
         then chunk_loop chunk_size parts (text_chunks @ [strip current_chunk], [])
         else chunk_loop chunk_size parts (text_chunks, current_chunk))
      else chunk_loop chunk_size parts (text_chunks, current_chunk))"

text \<open>
  Lines 323 to 341 as a whole: the value of the local variable \<open>text_chunks\<close> when the
  synthesis loop starts. The specification calls this function \<open>split\<close>.
\<close>

definition text_chunks :: "pystr \<Rightarrow> int \<Rightarrow> pystr list" where
  "text_chunks text chunk_size =
     (case chunk_loop chunk_size (re_split text) ([], []) of
        (chunks, current_chunk) \<Rightarrow>
          (let chunks = (if strip current_chunk \<noteq> [] then chunks @ [strip current_chunk] else chunks)
           in if chunks = [] then [text] else chunks))"

section \<open>The sequential synthesis driver (lines 343 to 374)\<close>

text \<open>
  \<open>synthesize_with_xtts\<close> is the external synthesis primitive: it returns the audio bytes
  of one chunk or raises, and it works on a process-wide model cache. It is a parameter
  of the model: a function from the state of the engine and the chunk to the outcome
  (\<open>Inl\<close> the exception caught at line 371) and the state the call leaves behind.
\<close>

datatype exn = Exception string

type_synonym bytes = "8 word list"

type_synonym 's synth = "'s \<Rightarrow> pystr \<Rightarrow> (exn + bytes) \<times> 's"

text \<open>
  The four messages the function logs: the number of chunks (line 343), the first audio
  chunk with its size (line 363), a later audio chunk with its position, the number of
  chunks and its size (line 366), and a failure with the position, the number of chunks
  and the exception (line 372).
\<close>

datatype log_event =
    Info_split nat
  | Info_first_chunk nat
  | Debug_chunk nat nat nat
  | Error_chunk nat nat exn

text \<open>
  The state of the generator: the engine, the flag \<open>first_chunk\<close>, the audio chunks
  yielded so far, in order, and the log. A run is that of a consumer that reads the
  generator to its end.
\<close>

record 's stream_state =
  engine :: 's
  first_chunk :: bool
  yielded :: "bytes list"
  log :: "log_event list"

text \<open>
  The loop of lines 347 to 374; \<open>n_chunks\<close> is \<open>len(text_chunks)\<close> and \<open>i\<close> the index
  that \<open>enumerate\<close> gives the chunk at the head of the list.
\<close>

fun stream_loop :: "'s synth \<Rightarrow> nat \<Rightarrow> nat \<Rightarrow> pystr list \<Rightarrow> 's stream_state \<Rightarrow> 's stream_state" where
  "stream_loop synth n_chunks i [] st = st"
| "stream_loop synth n_chunks i (chunk_text # rest) st =
     (if strip chunk_text = [] then stream_loop synth n_chunks (i + 1) rest st
      else
        (case synth (engine st) chunk_text of
           (Inr chunk_audio, engine') \<Rightarrow>
              stream_loop synth n_chunks (i + 1) rest
                (st\<lparr>engine := engine',
                    first_chunk := False,
                    yielded := yielded st @ [chunk_audio],
                    log := log st @
                      [if first_chunk st then Info_first_chunk (length chunk_audio)
                       else Debug_chunk (i + 1) n_chunks (length chunk_audio)]\<rparr>)
         | (Inl e, engine') \<Rightarrow>
              stream_loop synth n_chunks (i + 1) rest
                (st\<lparr>engine := engine', log := log st @ [Error_chunk (i + 1) n_chunks e]\<rparr>)))"

text \<open>
  Lines 343 to 374 on a given list of chunks: the log entry of line 343, the flag of
  line 346 and the loop.
\<close>

definition stream_chunks :: "'s synth \<Rightarrow> 's \<Rightarrow> pystr list \<Rightarrow> 's stream_state" where
  "stream_chunks synth s chunks =
     stream_loop synth (length chunks) 0 chunks
       \<lparr>engine = s, first_chunk = True, yielded = [], log = [Info_split (length chunks)]\<rparr>"

definition synthesize_with_xtts_streaming :: "'s synth \<Rightarrow> 's \<Rightarrow> pystr \<Rightarrow> int \<Rightarrow> 's stream_state" where
  "synthesize_with_xtts_streaming synth s text chunk_size =
     stream_chunks synth s (text_chunks text chunk_size)"

text \<open>
  \<open>generate_audio_chunks\<close> of main.py (lines 223 to 244) passes on what the generator
  yields, with the default \<open>chunk_size\<close> of 150. Its \<open>except\<close> branch runs only when the
  generator raises, which it never does here: every exception of the primitive is
  caught inside the loop.
\<close>

definition generate_audio_chunks :: "'s synth \<Rightarrow> 's \<Rightarrow> pystr \<Rightarrow> bytes list" where
  "generate_audio_chunks synth s text = yielded (synthesize_with_xtts_streaming synth s text 150)"

section \<open>Notions used to state the properties\<close>

text \<open>
  The sentences of a text, as the regular expression sees them: each text part of
  \<open>re_split\<close> with the separator that follows it. The last part, after the last
  separator, is the tail.
\<close>

fun sentences_of :: "pystr list \<Rightarrow> (pystr \<times> pystr) list" where
  "sentences_of (t # s # parts) = (t, s) # sentences_of parts"
| "sentences_of parts = []"

definition sentences :: "pystr \<Rightarrow> (pystr \<times> pystr) list" where
  "sentences text = sentences_of (re_split text)"

definition tail_text :: "pystr \<Rightarrow> pystr" where
  "tail_text text = last (re_split text)"

text \<open>
  The chunks one sentence gives: the text and the separator apart when the size test
  fires on a text that is not blank, the whole sentence otherwise.
\<close>

definition sentence_chunks :: "int \<Rightarrow> pystr \<times> pystr \<Rightarrow> pystr list" where
  "sentence_chunks chunk_size ts =
     (case ts of (t, s) \<Rightarrow>
        if chunk_size \<le> int (length t) \<and> strip t \<noteq> [] then [strip t, strip s]
        else [strip (t @ s)])"

definition all_chunks :: "int \<Rightarrow> pystr \<Rightarrow> pystr list" where
  "all_chunks chunk_size text =
     concat (map (sentence_chunks chunk_size) (sentences text)) @
     (if strip (tail_text text) = [] then [] else [strip (tail_text text)])"

text \<open>
  \<open>chunks_cover chunks text\<close>: the text is the chunks, in their order, with nothing but
  whitespace before the first, between two of them and after the last.
\<close>

fun chunks_cover :: "pystr list \<Rightarrow> pystr \<Rightarrow> bool" where
  "chunks_cover [] text = (\<forall>c \<in> set text. isspace c)"
| "chunks_cover (chunk # chunks) text =
     (\<exists>k \<in> {0..length text}.
        (\<forall>c \<in> set (take k text). isspace c) \<and>
        take (length chunk) (drop k text) = chunk \<and>
        chunks_cover chunks (drop (k + length chunk) text))"

text \<open>
  The calls of the primitive that the specification of the driver asks for: one call for
  each chunk that is not blank, in the order of the chunks, each from the state of the
  engine that the call before it left, whatever the outcome of that call was. An entry
  holds the position of the chunk counted from 1, the chunk and the outcome.
\<close>

fun spec_calls :: "'s synth \<Rightarrow> 's \<Rightarrow> nat \<Rightarrow> pystr list \<Rightarrow> (nat \<times> pystr \<times> (exn + bytes)) list" where
  "spec_calls synth s i [] = []"
| "spec_calls synth s i (chunk_text # rest) =
     (if strip chunk_text = [] then spec_calls synth s (i + 1) rest
      else (i + 1, chunk_text, fst (synth s chunk_text)) #
           spec_calls synth (snd (synth s chunk_text)) (i + 1) rest)"

text \<open>
  Three engines for the examples. The state of the first counts the calls made; its
  second call fails. The second fails at every call and the third at none. An audio
  chunk is made of the code points of the text, one byte each.
\<close>

definition second_call_fails :: "nat synth" where
  "second_call_fails calls chunk_text =
     (if calls = 1 then Inl (Exception ''out of memory'') else Inr (map of_nat chunk_text), calls + 1)"

definition every_call_fails :: "unit synth" where
  "every_call_fails u chunk_text = (Inl (Exception ''out of memory''), u)"

definition no_call_fails :: "unit synth" where
  "no_call_fails u chunk_text = (Inr (map of_nat chunk_text), u)"

definition is_error :: "log_event \<Rightarrow> bool" where
  "is_error ev = (case ev of Error_chunk i n_chunks e \<Rightarrow> True | _ \<Rightarrow> False)"

section \<open>The splitter, sentence by sentence\<close>

lemma terminator_not_space: "is_terminator c \<Longrightarrow> \<not> isspace c"
  by (auto simp: is_terminator_def isspace_def)

lemma strip_Nil [simp]: "strip [] = []"
  by (simp add: strip_def)

lemma strip_eq_Nil_iff: "strip s = [] \<longleftrightarrow> (\<forall>c \<in> set s. isspace c)"
proof
  assume "strip s = []"
  then have A: "\<forall>c \<in> set (dropWhile isspace s). isspace c"
    unfolding strip_def by (simp only: rev_is_Nil_conv dropWhile_eq_Nil_conv set_rev)
  have "dropWhile isspace s = []"
  proof (rule ccontr)
    assume ne: "dropWhile isspace s \<noteq> []"
    then have "hd (dropWhile isspace s) \<in> set (dropWhile isspace s)" by simp
    moreover have "\<not> isspace (hd (dropWhile isspace s))"
      using ne by (rule hd_dropWhile)
    ultimately show False using A by blast
  qed
  then show "\<forall>c \<in> set s. isspace c"
    by (simp only: dropWhile_eq_Nil_conv)
next
  assume "\<forall>c \<in> set s. isspace c"
  then have "dropWhile isspace s = []"
    by (simp only: dropWhile_eq_Nil_conv)
  then show "strip s = []"
    by (simp add: strip_def del: dropWhile_eq_Nil_conv)
qed

lemma has_terminator_iff:
  "(\<exists>p \<in> set (str ''.!?''). p \<in> set part) \<longleftrightarrow> (\<exists>c \<in> set part. is_terminator c)"
  by (auto simp: str_def is_terminator_def)

lemma re_split_no_terminator:
  assumes "\<forall>c \<in> set s. \<not> is_terminator c"
  shows "re_split s = [s]"
proof -
  have "dropWhile (\<lambda>c. \<not> is_terminator c) s = []"
    using assms by (simp only: dropWhile_eq_Nil_conv)
  then show ?thesis
    by (subst re_split.simps) (simp del: dropWhile_eq_Nil_conv)
qed

lemma re_split_not_Nil: "re_split s \<noteq> []"
  by (subst re_split.simps) (simp split: list.splits)

lemma chunk_loop_sentence:
  assumes t: "\<forall>c \<in> set t. \<not> is_terminator c"
      and s: "s \<noteq> []" "is_terminator (hd s)"
  shows "chunk_loop n (t # s # parts) (cs, []) = chunk_loop n parts (cs @ sentence_chunks n (t, s), [])"
proof -
  have hs: "hd s \<in> set s" using s by simp
  have ns: "\<not> isspace (hd s)"
    using s(2) by (rule terminator_not_space)
  have s1: "strip s \<noteq> []"
    using hs ns by (auto simp: strip_eq_Nil_iff)
  have s2: "\<exists>p \<in> set (str ''.!?''). p \<in> set s"
    unfolding has_terminator_iff using s hs by blast
  have s3: "strip (t @ s) \<noteq> []"
    using hs ns by (auto simp: strip_eq_Nil_iff)
  have t1: "\<not> (\<exists>p \<in> set (str ''.!?''). p \<in> set t)"
    unfolding has_terminator_iff using t by blast
  show ?thesis
  proof (cases "n \<le> int (length t) \<and> strip t \<noteq> []")
    case True
    then show ?thesis
      using s1 s2 t1 by (simp add: sentence_chunks_def)
  next
    case False
    then show ?thesis
      using s1 s2 s3 t1 by (auto simp: sentence_chunks_def)
  qed
qed

lemma chunk_loop_tail:
  assumes "\<forall>c \<in> set t. \<not> is_terminator c"
  shows "chunk_loop n [t] (cs, []) =
     (if n \<le> int (length t) \<and> strip t \<noteq> [] then (cs @ [strip t], []) else (cs, t))"
proof -
  have "\<not> (\<exists>p \<in> set (str ''.!?''). p \<in> set t)"
    unfolding has_terminator_iff using assms by blast
  then show ?thesis by simp
qed

lemma re_split_cases:
  obtains (last) "\<forall>c \<in> set s. \<not> is_terminator c" "re_split s = [s]"
  | (sentence) t sep rest r rs where "\<forall>c \<in> set t. \<not> is_terminator c" "sep \<noteq> []" "is_terminator (hd sep)"
      "\<forall>c \<in> set sep. is_terminator c \<or> isspace c"
      "s = t @ sep @ rest" "re_split s = t # sep # re_split rest"
      "dropWhile (\<lambda>c. \<not> is_terminator c) s = r # rs"
      "rest = dropWhile isspace (dropWhile is_terminator (r # rs))"
proof (cases "dropWhile (\<lambda>c. \<not> is_terminator c) s")
  case Nil
  then have "\<forall>c \<in> set s. \<not> is_terminator c" by simp
  then show ?thesis using last re_split_no_terminator by blast
next
  case (Cons r rs)
  define t where "t = takeWhile (\<lambda>c. \<not> is_terminator c) s"
  define sep where "sep = takeWhile is_terminator (r # rs) @ takeWhile isspace (dropWhile is_terminator (r # rs))"
  define rest where "rest = dropWhile isspace (dropWhile is_terminator (r # rs))"
  have r: "is_terminator r"
    using Cons hd_dropWhile [of "\<lambda>c. \<not> is_terminator c" s] by auto
  have 1: "\<forall>c \<in> set t. \<not> is_terminator c"
    unfolding t_def by (auto dest: set_takeWhileD)
  have 2: "sep \<noteq> []" "is_terminator (hd sep)"
    using r by (simp_all add: sep_def)
  have 3: "\<forall>c \<in> set sep. is_terminator c \<or> isspace c"
    unfolding sep_def by (auto dest: set_takeWhileD)
  have "s = t @ (r # rs)"
    unfolding t_def using Cons takeWhile_dropWhile_id [of "\<lambda>c. \<not> is_terminator c" s] by simp
  moreover have "r # rs = sep @ rest"
    unfolding sep_def rest_def by (metis append.assoc takeWhile_dropWhile_id)
  ultimately have 4: "s = t @ sep @ rest" by simp
  have 5: "re_split s = t # sep # re_split rest"
    by (subst re_split.simps) (simp add: Cons t_def sep_def rest_def)
  show ?thesis
    by (rule sentence [OF 1 2 3 4 5 Cons rest_def])
qed

lemma chunk_loop_re_split:
  "chunk_loop n (re_split s) (cs, []) =
     (cs @ concat (map (sentence_chunks n) (sentences s)) @
        (if n \<le> int (length (tail_text s)) \<and> strip (tail_text s) \<noteq> [] then [strip (tail_text s)] else []),
      if n \<le> int (length (tail_text s)) \<and> strip (tail_text s) \<noteq> [] then [] else tail_text s)"
proof (induction s arbitrary: cs rule: re_split.induct)
  case (1 s)
  show ?case
  proof (cases s rule: re_split_cases)
    case last
    show ?thesis
      unfolding last(2) chunk_loop_tail [OF last(1)]
      by (simp add: sentences_def tail_text_def last(2))
  next
    case (sentence t sep rest r rs)
    note rrs = sentence(7) and rest = sentence(8)
    have IH: "\<And>cs. chunk_loop n (re_split rest) (cs, []) =
     (cs @ concat (map (sentence_chunks n) (sentences rest)) @
        (if n \<le> int (length (tail_text rest)) \<and> strip (tail_text rest) \<noteq> [] then [strip (tail_text rest)] else []),
      if n \<le> int (length (tail_text rest)) \<and> strip (tail_text rest) \<noteq> [] then [] else tail_text rest)"
      unfolding rest by (rule "1.IH" [OF rrs])
    have a: "sentences s = (t, sep) # sentences rest"
      by (simp add: sentences_def sentence(6))
    have b: "tail_text s = tail_text rest"
      by (simp add: tail_text_def sentence(6) re_split_not_Nil)
    show ?thesis
      unfolding sentence(6) chunk_loop_sentence [OF sentence(1,2,3)] IH
      unfolding a b by simp
  qed
qed

lemma text_chunks_sentences:
  "text_chunks text n = (if all_chunks n text = [] then [text] else all_chunks n text)"
proof (cases "strip (tail_text text) = []")
  case True
  then show ?thesis
    by (simp add: text_chunks_def chunk_loop_re_split all_chunks_def)
next
  case False
  then show ?thesis
    by (cases "n \<le> int (length (tail_text text))")
       (simp_all add: text_chunks_def chunk_loop_re_split all_chunks_def)
qed

lemma strip_id:
  assumes "s \<noteq> []" "\<not> isspace (hd s)" "\<not> isspace (last s)"
  shows "strip s = s"
proof -
  have 1: "dropWhile isspace s = s"
    using assms(1,2) by (cases s) simp_all
  have "rev s \<noteq> []" "\<not> isspace (hd (rev s))"
    using assms(1,3) by (simp_all add: hd_rev)
  then have 2: "dropWhile isspace (rev s) = rev s"
    by (cases "rev s") simp_all
  show ?thesis
    unfolding strip_def 1 2 by simp
qed

lemma re_split_one_sentence:
  assumes t: "\<forall>c \<in> set t. \<not> is_terminator c"
      and p: "p \<noteq> []" "\<forall>c \<in> set p. is_terminator c"
  shows "re_split (t @ p) = [t, p, []]"
proof -
  obtain r rs where rrs: "p = r # rs" using p(1) by (cases p) auto
  have r: "is_terminator r" using p(2) rrs by simp
  have 1: "dropWhile (\<lambda>c. \<not> is_terminator c) (t @ p) = r # rs"
    using t r by (simp add: rrs)
  have 2: "takeWhile (\<lambda>c. \<not> is_terminator c) (t @ p) = t"
    using t r by (simp add: rrs)
  have 3: "takeWhile is_terminator (r # rs) = p" "dropWhile is_terminator (r # rs) = []"
    using p(2) rrs by simp_all
  have 4: "re_split [] = [[]]"
    by (simp add: re_split.simps)
  show ?thesis
    by (subst re_split.simps)
       (simp only: 1 2 3 4 list.case takeWhile.simps(1) dropWhile.simps(1) append_Nil2)
qed

section \<open>The splitter on the empty text and on the scenario of the specification\<close>

text \<open>
  C7: for the empty text and any positive \<open>chunk_size\<close> the splitter returns one chunk,
  the empty string: no chunk is appended by the loop or after it, and line 341 puts the
  text itself in the list.
\<close>

theorem empty_text_single_empty_chunk:
  "0 < chunk_size \<Longrightarrow> text_chunks [] chunk_size = [[]]"
  by (simp add: text_chunks_def re_split.simps)

theorem empty_text_single_empty_chunk_witness:
  "(0::int) < 10 \<and> text_chunks (str '''') 10 = [str '''']"
  using empty_text_single_empty_chunk [of 10] by (simp add: str_def)

text \<open>
  C1: the claim is that the splitter returns \<open>["Hello.", "How are you?", "I am fine."]\<close>
  on \<open>"Hello. How are you? I am fine."\<close> with a size of 10. What the code returns there
  has four chunks: \<open>"How are you"\<close> has 11 characters, so the size test of line 330
  fires on it before its question mark is appended, and the question mark is a chunk
  of its own.
\<close>

theorem scenario_result_of_the_code:
  "text_chunks (str ''Hello. How are you? I am fine.'') 10 =
     [str ''Hello.'', str ''How are you'', str ''?'', str ''I am fine.'']"
  by (simp add: text_chunks_def re_split.simps str_def is_terminator_def isspace_def strip_def)

text \<open>
  C10: when the text of a sentence before its terminators is not blank and has at least
  \<open>chunk_size\<close> characters, the splitter returns it as a chunk without the terminators,
  and the terminators as the next chunk, which holds nothing but punctuation.
\<close>

theorem long_sentence_gives_punctuation_only_chunk:
  assumes "0 < chunk_size"
      and "\<forall>c \<in> set t. \<not> is_terminator c" and "strip t \<noteq> []"
      and "chunk_size \<le> int (length t)"
      and "p \<noteq> []" and "\<forall>c \<in> set p. is_terminator c"
  shows "text_chunks (t @ p) chunk_size = [strip t, p]"
proof -
  have sp: "strip p = p"
  proof (rule strip_id)
    show "p \<noteq> []" by fact
    show "\<not> isspace (hd p)" using assms(5,6) terminator_not_space by simp
    show "\<not> isspace (last p)" using assms(5,6) terminator_not_space by simp
  qed
  have "sentences (t @ p) = [(t, p)]" "tail_text (t @ p) = []"
    using re_split_one_sentence [OF assms(2,5,6)] by (simp_all add: sentences_def tail_text_def)
  then have "all_chunks chunk_size (t @ p) = [strip t, p]"
    using assms(3,4) sp by (simp add: all_chunks_def sentence_chunks_def)
  then show ?thesis
    by (simp add: text_chunks_sentences)
qed

theorem long_sentence_gives_punctuation_only_chunk_witness:
  "(0::int) < 5 \<and> strip (str ''Hello world'') \<noteq> [] \<and> 5 \<le> int (length (str ''Hello world''))
   \<and> text_chunks (str ''Hello world.'') 5 = [str ''Hello world'', str ''.'']"
proof -
  have h: "\<forall>c \<in> set (str ''Hello world''). \<not> is_terminator c" "strip (str ''Hello world'') \<noteq> []"
       "5 \<le> int (length (str ''Hello world''))" "str ''.'' \<noteq> []" "\<forall>c \<in> set (str ''.''). is_terminator c"
    by (simp_all add: str_def is_terminator_def isspace_def strip_def)
  have s: "strip (str ''Hello world'') = str ''Hello world''" "str ''Hello world'' @ str ''.'' = str ''Hello world.''"
    by (simp_all add: str_def isspace_def strip_def)
  have "(0::int) < 5" by simp
  from long_sentence_gives_punctuation_only_chunk [OF this h]
  have "text_chunks (str ''Hello world.'') 5 = [str ''Hello world'', str ''.'']"
    unfolding s .
  then show ?thesis using h by simp
qed



section \<open>Chunks that cover the text\<close>

lemma chunks_cover_Cons_iff:
  "chunks_cover (c # cs) text \<longleftrightarrow>
     (\<exists>w rest. text = w @ c @ rest \<and> (\<forall>x \<in> set w. isspace x) \<and> chunks_cover cs rest)"
proof
  assume "chunks_cover (c # cs) text"
  then obtain k where k: "k \<le> length text" "\<forall>x \<in> set (take k text). isspace x"
      "take (length c) (drop k text) = c" "chunks_cover cs (drop (k + length c) text)"
    by auto
  have "text = take k text @ drop k text" by simp
  also have "drop k text = take (length c) (drop k text) @ drop (length c) (drop k text)"
    by (simp only: append_take_drop_id)
  also have "\<dots> = c @ drop (k + length c) text"
    using k(3) by (simp add: add.commute)
  finally have "text = take k text @ c @ drop (k + length c) text" .
  then show "\<exists>w rest. text = w @ c @ rest \<and> (\<forall>x \<in> set w. isspace x) \<and> chunks_cover cs rest"
    using k(2,4) by blast
next
  assume "\<exists>w rest. text = w @ c @ rest \<and> (\<forall>x \<in> set w. isspace x) \<and> chunks_cover cs rest"
  then obtain w rest where wr: "text = w @ c @ rest" "\<forall>x \<in> set w. isspace x" "chunks_cover cs rest"
    by blast
  have "length w \<in> {0..length text}" using wr(1) by simp
  moreover have "\<forall>x \<in> set (take (length w) text). isspace x" using wr(1,2) by simp
  moreover have "take (length c) (drop (length w) text) = c" using wr(1) by simp
  moreover have "chunks_cover cs (drop (length w + length c) text)"
    using wr(1,3) by simp
  ultimately show "chunks_cover (c # cs) text"
    unfolding chunks_cover.simps by blast
qed

lemma chunks_cover_space_before:
  assumes "\<forall>x \<in> set w. isspace x" "chunks_cover cs text"
  shows "chunks_cover cs (w @ text)"
proof (cases cs)
  case Nil
  then show ?thesis using assms by auto
next
  case (Cons c cs')
  obtain w' rest where "text = w' @ c @ rest" "\<forall>x \<in> set w'. isspace x" "chunks_cover cs' rest"
    using assms(2) unfolding Cons chunks_cover_Cons_iff by blast
  then have "w @ text = (w @ w') @ c @ rest \<and> (\<forall>x \<in> set (w @ w'). isspace x) \<and> chunks_cover cs' rest"
    using assms(1) by auto
  then show ?thesis
    unfolding Cons chunks_cover_Cons_iff by blast
qed

lemma chunks_cover_append:
  "chunks_cover cs1 t1 \<Longrightarrow> chunks_cover cs2 t2 \<Longrightarrow> chunks_cover (cs1 @ cs2) (t1 @ t2)"
proof (induction cs1 arbitrary: t1)
  case Nil
  then show ?case by (simp add: chunks_cover_space_before)
next
  case (Cons c cs1)
  from Cons.prems(1) obtain w rest where wr: "t1 = w @ c @ rest" "\<forall>x \<in> set w. isspace x" "chunks_cover cs1 rest"
    unfolding chunks_cover_Cons_iff by blast
  have "chunks_cover (cs1 @ cs2) (rest @ t2)"
    using Cons.IH [OF wr(3) Cons.prems(2)] .
  then have "t1 @ t2 = w @ c @ (rest @ t2) \<and> (\<forall>x \<in> set w. isspace x) \<and> chunks_cover (cs1 @ cs2) (rest @ t2)"
    using wr(1,2) by simp
  then show ?case
    unfolding append_Cons chunks_cover_Cons_iff by blast
qed

lemma chunks_cover_filter:
  "chunks_cover cs s \<Longrightarrow>
     filter (\<lambda>c. \<not> isspace c) (concat cs) = filter (\<lambda>c. \<not> isspace c) s"
proof (induction cs arbitrary: s)
  case Nil
  then show ?case by simp
next
  case (Cons c cs)
  from Cons.prems obtain w rest where wr: "s = w @ c @ rest" "\<forall>x \<in> set w. isspace x" "chunks_cover cs rest"
    unfolding chunks_cover_Cons_iff by blast
  have "filter (\<lambda>c. \<not> isspace c) w = []" using wr(2) by simp
  then show ?case
    using Cons.IH [OF wr(3)] wr(1) by simp
qed

lemma strip_decomp:
  "\<exists>l r. s = l @ strip s @ r \<and> (\<forall>c \<in> set l. isspace c) \<and> (\<forall>c \<in> set r. isspace c)"
proof -
  define d where "d = dropWhile isspace s"
  have 1: "s = takeWhile isspace s @ d" by (simp add: d_def)
  have "rev d = takeWhile isspace (rev d) @ dropWhile isspace (rev d)" by simp
  then have "rev (rev d) = rev (takeWhile isspace (rev d) @ dropWhile isspace (rev d))" by simp
  then have 2: "d = strip s @ rev (takeWhile isspace (rev d))"
    by (simp add: strip_def d_def del: takeWhile_dropWhile_id)
  have "s = takeWhile isspace s @ strip s @ rev (takeWhile isspace (rev d))"
    using 1 2 by simp
  moreover have "\<forall>c \<in> set (takeWhile isspace s). isspace c" by (auto dest: set_takeWhileD)
  moreover have "\<forall>c \<in> set (rev (takeWhile isspace (rev d))). isspace c" by (auto dest: set_takeWhileD)
  ultimately show ?thesis by blast
qed

lemma chunks_cover_strip: "chunks_cover [strip s] s"
proof -
  obtain l r where "s = l @ strip s @ r" "\<forall>c \<in> set l. isspace c" "\<forall>c \<in> set r. isspace c"
    using strip_decomp by blast
  then have "s = l @ strip s @ r \<and> (\<forall>c \<in> set l. isspace c) \<and> chunks_cover [] r" by simp
  then show ?thesis unfolding chunks_cover_Cons_iff by blast
qed

lemma strip_ends:
  assumes "strip s \<noteq> []"
  shows "\<not> isspace (hd (strip s))" "\<not> isspace (last (strip s))"
proof -
  define d where "d = dropWhile isspace s"
  have e: "dropWhile isspace (rev d) \<noteq> []"
    using assms by (simp add: strip_def d_def del: dropWhile_eq_Nil_conv)
  have d: "d \<noteq> []"
  proof
    assume "d = []"
    then show False using e by (simp del: dropWhile_eq_Nil_conv)
  qed
  have "\<not> isspace (hd (dropWhile isspace (rev d)))" using e by (rule hd_dropWhile)
  then show "\<not> isspace (last (strip s))"
    using e by (simp add: strip_def d_def last_rev)
  have hd: "\<not> isspace (hd d)" using d unfolding d_def by (rule hd_dropWhile)
  obtain r where lr: "d = strip s @ r"
    using takeWhile_dropWhile_id [of isspace "rev d"]
    by (metis d_def rev_append rev_rev_ident strip_def)
  then have "hd (strip s) = hd d" using assms by simp
  then show "\<not> isspace (hd (strip s))" using hd by simp
qed

lemma strip_strip: "strip (strip s) = strip s"
proof (cases "strip s = []")
  case True
  then show ?thesis by simp
next
  case False
  then show ?thesis by (intro strip_id strip_ends)
qed


section \<open>The chunks of a text, sentence by sentence\<close>

lemma re_split_induct [case_names last sentence]:
  assumes "\<And>s. \<forall>c \<in> set s. \<not> is_terminator c \<Longrightarrow> re_split s = [s] \<Longrightarrow> P s"
      and "\<And>s t sep rest. \<forall>c \<in> set t. \<not> is_terminator c \<Longrightarrow> sep \<noteq> [] \<Longrightarrow> is_terminator (hd sep) \<Longrightarrow>
             s = t @ sep @ rest \<Longrightarrow> re_split s = t # sep # re_split rest \<Longrightarrow> P rest \<Longrightarrow> P s"
  shows "P s"
proof (induction s rule: re_split.induct)
  case (1 s)
  show ?case
  proof (cases s rule: re_split_cases)
    case last
    then show ?thesis by (rule assms(1))
  next
    case (sentence t sep rest r rs)
    have "P rest"
      unfolding sentence(8) by (rule "1.IH" [OF sentence(7)])
    then show ?thesis
      by (rule assms(2) [OF sentence(1,2,3,5,6)])
  qed
qed

lemma all_chunks_last:
  "re_split s = [s] \<Longrightarrow> all_chunks n s = (if strip s = [] then [] else [strip s])"
  by (simp add: all_chunks_def sentences_def tail_text_def)

lemma all_chunks_sentence:
  "re_split s = t # sep # re_split rest \<Longrightarrow>
     all_chunks n s = sentence_chunks n (t, sep) @ all_chunks n rest"
  by (simp add: all_chunks_def sentences_def tail_text_def re_split_not_Nil)

lemma sentences_concat:
  "concat (map (\<lambda>(t, s). t @ s) (sentences s)) @ tail_text s = s"
proof (induction s rule: re_split_induct)
  case (last s)
  then show ?case by (simp add: sentences_def tail_text_def)
next
  case (sentence s t sep rest)
  have "sentences s = (t, sep) # sentences rest" "tail_text s = tail_text rest"
    using sentence(5) by (simp_all add: sentences_def tail_text_def re_split_not_Nil)
  then show ?case
    using sentence(6) by (simp add: sentence(4))
qed

lemma chunks_cover_tail: "chunks_cover (if strip s = [] then [] else [strip s]) s"
  using chunks_cover_strip [of s] by (simp add: strip_eq_Nil_iff)

lemma chunks_cover_sentence: "chunks_cover (sentence_chunks n (t, s)) (t @ s)"
proof (cases "n \<le> int (length t) \<and> strip t \<noteq> []")
  case True
  have "chunks_cover ([strip t] @ [strip s]) (t @ s)"
    by (intro chunks_cover_append chunks_cover_strip)
  then show ?thesis using True by (simp add: sentence_chunks_def)
next
  case False
  then show ?thesis
    using chunks_cover_strip [of "t @ s"] by (auto simp: sentence_chunks_def)
qed

lemma chunks_cover_sentences:
  "chunks_cover (concat (map (sentence_chunks n) ss)) (concat (map (\<lambda>(t, s). t @ s) ss))"
proof (induction ss)
  case Nil
  then show ?case by simp
next
  case (Cons a ss)
  obtain t s where a: "a = (t, s)" by (cases a)
  have "chunks_cover (sentence_chunks n (t, s) @ concat (map (sentence_chunks n) ss))
          ((t @ s) @ concat (map (\<lambda>(t, s). t @ s) ss))"
    by (intro chunks_cover_append chunks_cover_sentence Cons.IH)
  then show ?case by (simp add: a)
qed

lemma chunks_cover_all_chunks: "chunks_cover (all_chunks n s) s"
proof -
  have "chunks_cover (all_chunks n s) (concat (map (\<lambda>(t, s). t @ s) (sentences s)) @ tail_text s)"
    unfolding all_chunks_def
    by (intro chunks_cover_append chunks_cover_sentences chunks_cover_tail)
  then show ?thesis by (simp only: sentences_concat)
qed

lemma chunks_cover_self: "chunks_cover [s] s"
proof -
  have "s = [] @ s @ [] \<and> (\<forall>x \<in> set ([]::pystr). isspace x) \<and> chunks_cover [] []" by simp
  then show ?thesis unfolding chunks_cover_Cons_iff by blast
qed

lemma chunks_cover_text_chunks: "chunks_cover (text_chunks s n) s"
  by (simp add: text_chunks_sentences chunks_cover_self chunks_cover_all_chunks
        del: chunks_cover.simps)

lemma text_chunks_not_Nil: "text_chunks s n \<noteq> []"
  by (simp add: text_chunks_sentences)

lemma sentence_chunks_stripped:
  assumes "s \<noteq> []" "is_terminator (hd s)" "c \<in> set (sentence_chunks n (t, s))"
  shows "c \<noteq> [] \<and> strip c = c"
proof -
  have hs: "hd s \<in> set s" "\<not> isspace (hd s)"
    using assms(1,2) terminator_not_space by simp_all
  then have "strip s \<noteq> []" "strip (t @ s) \<noteq> []"
    by (auto simp: strip_eq_Nil_iff)
  then show ?thesis
    using assms(3) by (auto simp: sentence_chunks_def strip_strip split: if_splits)
qed

lemma all_chunks_stripped:
  "c \<in> set (all_chunks n s) \<Longrightarrow> c \<noteq> [] \<and> strip c = c"
proof (induction s rule: re_split_induct)
  case (last s)
  then show ?case by (auto simp: all_chunks_last strip_strip split: if_splits)
next
  case (sentence s t sep rest)
  from sentence(7) have "c \<in> set (sentence_chunks n (t, sep)) \<or> c \<in> set (all_chunks n rest)"
    by (simp add: all_chunks_sentence [OF sentence(5)])
  then show ?case
    using sentence_chunks_stripped [OF sentence(2,3)] sentence(6) by blast
qed

lemma not_blank_all_chunks:
  assumes "strip s \<noteq> []"
  shows "all_chunks n s \<noteq> []"
proof
  assume "all_chunks n s = []"
  then have "chunks_cover [] s" using chunks_cover_all_chunks [of n s] by simp
  then show False using assms by (simp add: strip_eq_Nil_iff)
qed


section \<open>What the splitter guarantees\<close>

lemma no_terminator_text_chunks:
  assumes "\<forall>c \<in> set s. \<not> is_terminator c"
  shows "text_chunks s n = [if strip s = [] then s else strip s]"
proof -
  have "re_split s = [s]" using assms by (rule re_split_no_terminator)
  then show ?thesis by (simp add: text_chunks_sentences all_chunks_last)
qed

text \<open>
  C2: for a text that is not empty and a positive \<open>chunk_size\<close>, the splitter returns at
  least one chunk, and the chunks put the text together again up to whitespace: the text
  is the chunks in their order with nothing but whitespace before, between and after
  them, so the characters that are not whitespace are those of the text, each once and
  in the same order.
\<close>

theorem chunks_reconstruct_text:
  assumes "text \<noteq> []" and "0 < chunk_size"
  shows "text_chunks text chunk_size \<noteq> [] \<and>
         chunks_cover (text_chunks text chunk_size) text \<and>
         filter (\<lambda>c. \<not> isspace c) (concat (text_chunks text chunk_size)) =
           filter (\<lambda>c. \<not> isspace c) text"
  using text_chunks_not_Nil chunks_cover_text_chunks
    chunks_cover_filter [OF chunks_cover_text_chunks] by blast

theorem chunks_reconstruct_text_witness:
  "str ''Hi there.  Yo'' \<noteq> [] \<and> (0::int) < 5 \<and>
   text_chunks (str ''Hi there.  Yo'') 5 = [str ''Hi there'', str ''.'', str ''Yo''] \<and>
   chunks_cover [str ''Hi there'', str ''.'', str ''Yo''] (str ''Hi there.  Yo'') \<and>
   filter (\<lambda>c. \<not> isspace c) (concat [str ''Hi there'', str ''.'', str ''Yo'']) =
     filter (\<lambda>c. \<not> isspace c) (str ''Hi there.  Yo'')"
proof -
  have e: "text_chunks (str ''Hi there.  Yo'') 5 = [str ''Hi there'', str ''.'', str ''Yo'']"
    by (simp add: text_chunks_def re_split.simps str_def is_terminator_def isspace_def strip_def)
  have h: "str ''Hi there.  Yo'' \<noteq> []" "(0::int) < 5"
    by (simp_all add: str_def)
  show ?thesis
    using chunks_reconstruct_text [OF h] h unfolding e by blast
qed

text \<open>
  C5 as it is stated fails on a text of one space: the text is not empty, and the one
  chunk returned is the text itself, which is blank (line 341 puts the text in the list
  when no chunk was appended).
\<close>

theorem blank_text_gives_blank_chunk:
  "str '' '' \<noteq> [] \<and> (0::int) < 10 \<and> text_chunks (str '' '') 10 = [str '' ''] \<and>
   strip (str '' '') = []"
  by (simp add: text_chunks_def re_split.simps str_def is_terminator_def isspace_def strip_def)

text \<open>
  C5, amended: for a text with a character that is not whitespace and a positive
  \<open>chunk_size\<close>, the splitter returns at least one chunk, no chunk is empty or blank, no
  chunk starts or ends with whitespace, and the chunks occur in the text in their order.
\<close>

theorem chunks_not_blank_and_in_order:
  assumes "strip text \<noteq> []" and "0 < chunk_size"
  shows "text_chunks text chunk_size \<noteq> [] \<and>
         (\<forall>c \<in> set (text_chunks text chunk_size). c \<noteq> [] \<and> strip c \<noteq> [] \<and> strip c = c) \<and>
         chunks_cover (text_chunks text chunk_size) text"
proof -
  have eq: "text_chunks text chunk_size = all_chunks chunk_size text"
    using not_blank_all_chunks [OF assms(1)] by (simp add: text_chunks_sentences)
  have "\<forall>c \<in> set (all_chunks chunk_size text). c \<noteq> [] \<and> strip c \<noteq> [] \<and> strip c = c"
    using all_chunks_stripped by metis
  then show ?thesis
    unfolding eq using not_blank_all_chunks [OF assms(1)] chunks_cover_all_chunks by blast
qed

theorem chunks_not_blank_and_in_order_witness:
  "strip (str '' Wait...  What?! ok '') \<noteq> [] \<and> (0::int) < 10 \<and>
   text_chunks (str '' Wait...  What?! ok '') 10 = [str ''Wait...'', str ''What?!'', str ''ok''] \<and>
   chunks_cover [str ''Wait...'', str ''What?!'', str ''ok''] (str '' Wait...  What?! ok '')"
proof -
  have e: "text_chunks (str '' Wait...  What?! ok '') 10 = [str ''Wait...'', str ''What?!'', str ''ok'']"
    by (simp add: text_chunks_def re_split.simps str_def is_terminator_def isspace_def strip_def)
  have h: "strip (str '' Wait...  What?! ok '') \<noteq> []" "(0::int) < 10"
    by (simp_all add: str_def isspace_def strip_def)
  show ?thesis
    using chunks_not_blank_and_in_order [OF h] h unfolding e by blast
qed

text \<open>
  C6 as it is stated fails on a text of two spaces with a size of 5: the text has no
  terminator and is shorter than the size, and the one chunk returned is the text as it
  is, not the trimmed text, which is empty.
\<close>

theorem blank_text_is_not_trimmed:
  "\<not> list_ex is_terminator (str ''  '') \<and> int (length (str ''  '')) \<le> 5 \<and>
   text_chunks (str ''  '') 5 = [str ''  ''] \<and> strip (str ''  '') = [] \<and>
   text_chunks (str ''  '') 5 \<noteq> [strip (str ''  '')]"
  by (simp add: text_chunks_def re_split.simps str_def is_terminator_def isspace_def strip_def)

text \<open>
  C6, amended: for a text with no terminator and a \<open>chunk_size\<close> of at least its length,
  the splitter returns exactly one chunk: the trimmed text when the text has a character
  that is not whitespace, and the text as it is when it is blank.
\<close>

theorem no_terminator_single_chunk:
  assumes "\<forall>c \<in> set text. \<not> is_terminator c" and "int (length text) \<le> chunk_size"
  shows "text_chunks text chunk_size = [if strip text = [] then text else strip text]"
  using assms(1) by (rule no_terminator_text_chunks)

theorem no_terminator_single_chunk_witness:
  "int (length (str ''  hello world '')) \<le> 20 \<and>
   text_chunks (str ''  hello world '') 20 = [str ''hello world'']"
proof -
  have h: "\<forall>c \<in> set (str ''  hello world ''). \<not> is_terminator c" "int (length (str ''  hello world '')) \<le> 20"
    by (simp_all add: str_def is_terminator_def)
  have s: "strip (str ''  hello world '') = str ''hello world''"
    by (simp add: str_def isspace_def strip_def)
  show ?thesis
    using no_terminator_single_chunk [OF h] h(2) unfolding s by (simp add: str_def)
qed

text \<open>
  C3: in a text with a terminator, take any sentence (a text part \<open>t\<close> and the separator
  \<open>s\<close> that follows it) whose text part is shorter than a positive \<open>chunk_size\<close>, which
  is the case whenever the end of the sentence comes before \<open>chunk_size\<close> characters have
  been accumulated. The sentence is one chunk: the chunks before it cover exactly the
  sentences before it, and the chunks after it exactly the rest of the text, so no chunk
  boundary falls inside it. A sentence that is cut therefore has a text part of at least
  \<open>chunk_size\<close> characters, and is longer than \<open>chunk_size\<close> with its terminator.
\<close>

theorem short_sentence_is_one_chunk:
  assumes "\<exists>c \<in> set text. is_terminator c" and "0 < chunk_size"
      and "sentences text = before @ (t, s) # after"
      and "int (length t) < chunk_size"
  shows "\<exists>pre post.
           text_chunks text chunk_size = pre @ strip (t @ s) # post \<and>
           chunks_cover pre (concat (map (\<lambda>(t, s). t @ s) before)) \<and>
           chunks_cover post (concat (map (\<lambda>(t, s). t @ s) after) @ tail_text text)"
proof -
  define pre where "pre = concat (map (sentence_chunks chunk_size) before)"
  define post where "post = concat (map (sentence_chunks chunk_size) after) @
      (if strip (tail_text text) = [] then [] else [strip (tail_text text)])"
  have sc: "sentence_chunks chunk_size (t, s) = [strip (t @ s)]"
    using assms(4) by (simp add: sentence_chunks_def)
  have all: "all_chunks chunk_size text = pre @ strip (t @ s) # post"
    by (simp add: all_chunks_def assms(3) sc pre_def post_def)
  then have 1: "text_chunks text chunk_size = pre @ strip (t @ s) # post"
    by (simp add: text_chunks_sentences)
  have 2: "chunks_cover pre (concat (map (\<lambda>(t, s). t @ s) before))"
    unfolding pre_def by (rule chunks_cover_sentences)
  have 3: "chunks_cover post (concat (map (\<lambda>(t, s). t @ s) after) @ tail_text text)"
    unfolding post_def by (intro chunks_cover_append chunks_cover_sentences chunks_cover_tail)
  show ?thesis using 1 2 3 by blast
qed



theorem short_sentence_is_one_chunk_witness:
  "(0::int) < 10 \<and>
   sentences (str ''Go on. Hi! How are you? Bye'') =
     [(str ''Go on'', str ''. '')] @ (str ''Hi'', str ''! '') # [(str ''How are you'', str ''? '')] \<and>
   int (length (str ''Hi'')) < 10 \<and>
   (\<exists>pre post.
      text_chunks (str ''Go on. Hi! How are you? Bye'') 10 = pre @ strip (str ''Hi'' @ str ''! '') # post \<and>
      chunks_cover pre (concat (map (\<lambda>(t, s). t @ s) [(str ''Go on'', str ''. '')])) \<and>
      chunks_cover post (concat (map (\<lambda>(t, s). t @ s) [(str ''How are you'', str ''? '')]) @
        tail_text (str ''Go on. Hi! How are you? Bye'')))"
proof -
  have h1: "\<exists>c \<in> set (str ''Go on. Hi! How are you? Bye''). is_terminator c"
    by (simp add: str_def is_terminator_def)
  have h2: "(0::int) < 10" by simp
  have h3: "sentences (str ''Go on. Hi! How are you? Bye'') =
     [(str ''Go on'', str ''. '')] @ (str ''Hi'', str ''! '') # [(str ''How are you'', str ''? '')]"
    by (simp add: sentences_def re_split.simps str_def is_terminator_def isspace_def)
  have h4: "int (length (str ''Hi'')) < 10"
    by (simp add: str_def)
  show ?thesis
    using short_sentence_is_one_chunk [OF h1 h2 h3 h4] h2 h3 h4 by blast
qed

section \<open>The driver\<close>

lemma stream_loop_yielded:
  "yielded (stream_loop synth n i chunks st) =
     yielded st @ [a. (k, c, Inr a) \<leftarrow> spec_calls synth (engine st) i chunks]"
proof (induction chunks arbitrary: i st)
  case Nil
  then show ?case by simp
next
  case (Cons c chunks)
  obtain r s' where r: "synth (engine st) c = (r, s')" by (cases "synth (engine st) c")
  show ?case
    by (cases r) (simp_all add: r Cons.IH)
qed


lemma is_error_simps [simp]:
  "is_error (Error_chunk k n e)" "\<not> is_error (Info_split m)"
  "\<not> is_error (Info_first_chunk m)" "\<not> is_error (Debug_chunk k n m)"
  by (simp_all add: is_error_def)

lemma stream_loop_errors:
  "filter is_error (log (stream_loop synth n i chunks st)) =
     filter is_error (log st) @ [Error_chunk k n e. (k, c, Inl e) \<leftarrow> spec_calls synth (engine st) i chunks]"
proof (induction chunks arbitrary: i st)
  case Nil
  then show ?case by simp
next
  case (Cons c chunks)
  obtain r s' where r: "synth (engine st) c = (r, s')" by (cases "synth (engine st) c")
  show ?case
    by (cases r) (simp_all add: r Cons.IH)
qed

lemma spec_calls_chunks:
  "map (\<lambda>(k, c, r). c) (spec_calls synth s i chunks) = filter (\<lambda>c. strip c \<noteq> []) chunks"
  by (induction chunks arbitrary: i s) simp_all

text \<open>
  C4: whatever the chunks and the primitive, the driver calls the primitive once on each
  chunk that is not blank, in order, each call from the state the one before left, whether
  that one failed or not; it yields the audio of the calls that succeed, in order, and
  nothing for a call that fails; and it logs one error for each call that fails, with the
  position of the chunk. The example is a sequence of three chunks whose second call
  fails: the driver yields the audio of the first and of the third chunk and logs one
  error, for chunk 2 of 3.
\<close>

theorem failed_chunk_is_logged_and_skipped:
  "yielded (stream_chunks synth s chunks) = [a. (k, c, Inr a) \<leftarrow> spec_calls synth s 0 chunks] \<and>
   filter is_error (log (stream_chunks synth s chunks)) =
     [Error_chunk k (length chunks) e. (k, c, Inl e) \<leftarrow> spec_calls synth s 0 chunks] \<and>
   map (\<lambda>(k, c, r). c) (spec_calls synth s 0 chunks) = filter (\<lambda>c. strip c \<noteq> []) chunks"
  by (simp add: stream_chunks_def stream_loop_yielded stream_loop_errors spec_calls_chunks)

lemma second_of_three_fails:
  assumes "strip c1 \<noteq> []" "strip c2 \<noteq> []" "strip c3 \<noteq> []"
      and "synth s c1 = (Inr a1, s1)" "synth s1 c2 = (Inl e, s2)" "synth s2 c3 = (Inr a3, s3)"
  shows "yielded (stream_chunks synth s [c1, c2, c3]) = [a1, a3] \<and>
         filter is_error (log (stream_chunks synth s [c1, c2, c3])) = [Error_chunk 2 3 e]"
  using assms by (simp add: stream_chunks_def)



lemma example_chunks_not_blank: "strip (str ''One.'') \<noteq> []" "strip (str ''Two.'') \<noteq> []" "strip (str ''Three.'') \<noteq> []"
  by (simp_all add: str_def strip_def isspace_def)


theorem failed_chunk_is_logged_and_skipped_witness:
  "yielded (stream_chunks second_call_fails 0 [str ''One.'', str ''Two.'', str ''Three.'']) =
     [map of_nat (str ''One.''), map of_nat (str ''Three.'')] \<and>
   filter is_error (log (stream_chunks second_call_fails 0 [str ''One.'', str ''Two.'', str ''Three.''])) =
     [Error_chunk 2 3 (Exception ''out of memory'')]"
proof -
  have c: "spec_calls second_call_fails 0 0 [str ''One.'', str ''Two.'', str ''Three.''] =
      [(1, str ''One.'', Inr (map of_nat (str ''One.''))),
       (2, str ''Two.'', Inl (Exception ''out of memory'')),
       (3, str ''Three.'', Inr (map of_nat (str ''Three.'')))]"
    by (simp add: second_call_fails_def example_chunks_not_blank)
  note t = failed_chunk_is_logged_and_skipped
    [of second_call_fails 0 "[str ''One.'', str ''Two.'', str ''Three.'']", unfolded c]
  show ?thesis
    using t [THEN conjunct1] t [THEN conjunct2, THEN conjunct1] by simp
qed

text \<open>
  C8 as it is stated fails: when the synthesis of every chunk of \<open>"Hi."\<close> fails, the
  caller receives no audio chunk at all, which is exactly what it receives for the empty
  text from an engine that never fails. Nothing else reaches the caller: the generator
  catches every exception of the primitive and yields audio chunks only.
\<close>

theorem total_failure_looks_like_empty_text:
  "generate_audio_chunks every_call_fails () (str ''Hi.'') = [] \<and>
   generate_audio_chunks no_call_fails () (str '''') = [] \<and>
   generate_audio_chunks every_call_fails () (str ''Hi.'') = generate_audio_chunks no_call_fails () (str '''')"
  by (simp add: generate_audio_chunks_def synthesize_with_xtts_streaming_def stream_chunks_def
        text_chunks_def re_split.simps str_def is_terminator_def isspace_def strip_def
        every_call_fails_def no_call_fails_def)



lemma no_audio_all_errors:
  "[a. (k, c, Inr a) \<leftarrow> calls] = [] \<Longrightarrow>
     length [Error_chunk k n e. (k, c, Inl e) \<leftarrow> calls] = length calls"
proof (induction calls)
  case Nil
  then show ?case by simp
next
  case (Cons x calls)
  obtain k c r where x: "x = (k, c, r)" by (cases x)
  show ?case using Cons by (cases r) (simp_all add: x)
qed

lemma spec_calls_length:
  "\<forall>c \<in> set chunks. strip c \<noteq> [] \<Longrightarrow> length (spec_calls synth s i chunks) = length chunks"
  by (induction chunks arbitrary: s i) simp_all

lemma empty_text_run:
  "yielded (synthesize_with_xtts_streaming synth s [] n) = [] \<and>
   filter is_error (log (synthesize_with_xtts_streaming synth s [] n)) = []"
proof -
  have "text_chunks [] n = [[]]"
    by (simp add: text_chunks_sentences all_chunks_last re_split_no_terminator)
  then show ?thesis
    by (simp add: synthesize_with_xtts_streaming_def stream_chunks_def)
qed


lemma all_fail_no_audio:
  "\<forall>(k, c, r) \<in> set calls. isl r \<Longrightarrow> [a. (k, c, Inr a) \<leftarrow> calls] = []"
proof (induction calls)
  case Nil
  then show ?case by simp
next
  case (Cons x calls)
  obtain k c r where x: "x = (k, c, r)" by (cases x)
  show ?case using Cons by (cases r) (simp_all add: x)
qed

lemma failing_primitive_all_calls_fail:
  "(\<And>st c. isl (fst (synth st c))) \<Longrightarrow> \<forall>(k, c, r) \<in> set (spec_calls synth s i chunks). isl r"
  by (induction chunks arbitrary: s i) simp_all

text \<open>
  C8, amended: when the text is not blank and the synthesis of every chunk fails, the
  caller receives no audio chunk, which is also what it receives for the empty text, and
  nothing else reaches it. The two cases differ in the log of the driver only: one error
  for each chunk, so at least one, when every synthesis fails, and no error for the
  empty text.
\<close>

theorem total_failure_shows_only_in_the_log:
  assumes "strip text \<noteq> []"
      and "\<forall>(k, c, r) \<in> set (spec_calls synth s 0 (text_chunks text 150)). isl r"
  shows "generate_audio_chunks synth s text = [] \<and>
         generate_audio_chunks synth' s' [] = [] \<and>
         length (filter is_error (log (synthesize_with_xtts_streaming synth s text 150))) =
           length (text_chunks text 150) \<and>
         filter is_error (log (synthesize_with_xtts_streaming synth s text 150)) \<noteq> [] \<and>
         filter is_error (log (synthesize_with_xtts_streaming synth' s' [] 150)) = []"
proof -
  let ?chunks = "text_chunks text 150"
  let ?calls = "spec_calls synth s 0 ?chunks"
  have eq: "?chunks = all_chunks 150 text"
    using not_blank_all_chunks [OF assms(1)] by (simp add: text_chunks_sentences)
  have nb: "\<forall>c \<in> set ?chunks. strip c \<noteq> []"
    unfolding eq using all_chunks_stripped by metis
  have len: "length ?calls = length ?chunks"
    using nb by (rule spec_calls_length)
  have none: "[a. (k, c, Inr a) \<leftarrow> ?calls] = []"
    using assms(2) by (rule all_fail_no_audio)
  have 0: "generate_audio_chunks synth s text = []"
    using none
    by (simp add: generate_audio_chunks_def synthesize_with_xtts_streaming_def
          stream_chunks_def stream_loop_yielded)
  have "length [Error_chunk k (length ?chunks) e. (k, c, Inl e) \<leftarrow> ?calls] = length ?calls"
    using none by (rule no_audio_all_errors)
  then have 1: "length (filter is_error (log (synthesize_with_xtts_streaming synth s text 150))) =
      length ?chunks"
    by (simp add: synthesize_with_xtts_streaming_def stream_chunks_def stream_loop_errors len)
  have "?chunks \<noteq> []" by (rule text_chunks_not_Nil)
  then have 2: "filter is_error (log (synthesize_with_xtts_streaming synth s text 150)) \<noteq> []"
    using 1 by (metis length_0_conv)
  show ?thesis
    using 0 1 2 empty_text_run [of synth' s' 150] by (simp add: generate_audio_chunks_def)
qed

theorem total_failure_shows_only_in_the_log_witness:
  "strip (str ''Hi. Bye.'') \<noteq> [] \<and>
   list_all (\<lambda>(k, c, r). isl r) (spec_calls every_call_fails () 0 (text_chunks (str ''Hi. Bye.'') 150)) \<and>
   generate_audio_chunks every_call_fails () (str ''Hi. Bye.'') = [] \<and>
   generate_audio_chunks no_call_fails () [] = [] \<and>
   length (filter is_error (log (synthesize_with_xtts_streaming every_call_fails () (str ''Hi. Bye.'') 150))) = 2 \<and>
   filter is_error (log (synthesize_with_xtts_streaming every_call_fails () (str ''Hi. Bye.'') 150)) \<noteq> [] \<and>
   filter is_error (log (synthesize_with_xtts_streaming no_call_fails () [] 150)) = []"
proof -
  have h1: "strip (str ''Hi. Bye.'') \<noteq> []"
    by (simp add: str_def strip_def isspace_def)
  have c: "text_chunks (str ''Hi. Bye.'') 150 = [str ''Hi.'', str ''Bye.'']"
    by (simp add: text_chunks_def re_split.simps str_def is_terminator_def isspace_def strip_def)
  have nb: "strip (str ''Hi.'') \<noteq> []" "strip (str ''Bye.'') \<noteq> []"
    by (simp_all add: str_def strip_def isspace_def)
  have calls: "spec_calls every_call_fails () 0 (text_chunks (str ''Hi. Bye.'') 150) =
      [(1, str ''Hi.'', Inl (Exception ''out of memory'')),
       (2, str ''Bye.'', Inl (Exception ''out of memory''))]"
    unfolding c by (simp add: every_call_fails_def nb)
  have h2: "\<forall>(k, c, r) \<in> set (spec_calls every_call_fails () 0 (text_chunks (str ''Hi. Bye.'') 150)). isl r"
    unfolding calls by simp
  have l: "list_all (\<lambda>(k, c, r). isl r) (spec_calls every_call_fails () 0 (text_chunks (str ''Hi. Bye.'') 150))"
    unfolding calls by simp
  have n: "length (text_chunks (str ''Hi. Bye.'') 150) = 2"
    unfolding c by simp
  note t = total_failure_shows_only_in_the_log [OF h1 h2, of no_call_fails "()", unfolded n]
  show ?thesis
    using t h1 l by blast
qed

end
